theory Spec2Isabelle
  imports Main "HOL-Library.Word"
begin

section \<open>Go values used by storage/objcache/lru.go\<close>

text \<open>
  A Go \<^verbatim>\<open>[]byte\<close> is either the nil slice or a sequence of bytes; \<open>None\<close> is nil.
  Converting between \<^verbatim>\<open>[]byte\<close>, \<^verbatim>\<open>itemBySize\<close> and \<^verbatim>\<open>itemByCount\<close> keeps the slice as
  it is, nil included.
\<close>

type_synonym byte = "8 word"
type_synonym bytes = "byte list option"

definition len_bytes :: "bytes \<Rightarrow> nat" where
  "len_bytes b = (case b of None \<Rightarrow> 0 | Some xs \<Rightarrow> length xs)"

text \<open>
  A Go \<^verbatim>\<open>error\<close> is nil (\<open>None\<close>) or carries a message. A run-time panic is not a
  returned error: an operation that panics returns nothing, so every operation of the
  backend yields either a panic (\<open>Inl\<close>) or its Go results (\<open>Inr\<close>).
\<close>

type_synonym error = "string option"

datatype panic = IndexOutOfRange | TypeAssertion | NilDereference

text \<open>\<^verbatim>\<open>time.Duration\<close> is an int64.\<close>

type_synonym Duration = "64 word"

subsection \<open>The two dynamic types behind \<^verbatim>\<open>lru.Value\<close> (lru.go, lines 68 to 74)\<close>

datatype Value = itemBySize bytes | itemByCount bytes

fun Size :: "Value \<Rightarrow> int" where
  "Size (itemBySize li) = int (len_bytes li)"
| "Size (itemByCount li) = 1"

section \<open>The eviction engine \<^verbatim>\<open>lru.Cache\<close>\<close>

text \<open>
  Modelled from the spec: the package \<^verbatim>\<open>storage/lru\<close> (type \<^verbatim>\<open>lru.Cache\<close> with \<^verbatim>\<open>New\<close>,
  \<^verbatim>\<open>Get\<close>, \<^verbatim>\<open>Set\<close>, \<^verbatim>\<open>Delete\<close> and \<^verbatim>\<open>Clear\<close>) is imported by lru.go and is not among the
  source files. An entry is (Key, Value, Weight); the engine holds its entries in recency
  order, most recently used first, and a fixed Capacity. The running total weight of the
  spec is the sum of the weights of the entries held.
\<close>

record entry =
  entry_key :: string
  entry_value :: Value
  entry_weight :: int

record lru_Cache =
  entries :: "entry list"
  capacity :: int

text \<open>Modelled from the spec: the engine's running total weight (section 3).\<close>

definition total_weight :: "entry list \<Rightarrow> int" where
  "total_weight es = sum_list (map entry_weight es)"

text \<open>
  Modelled from the spec: \<^verbatim>\<open>lru.New(capacity)\<close>, an engine with no entry and the given
  Capacity.
\<close>

definition lru_New :: "int \<Rightarrow> lru_Cache" where
  "lru_New cap = \<lparr>entries = [], capacity = cap\<rparr>"

text \<open>
  Modelled from the spec: \<^verbatim>\<open>Get(key) -> (value, found)\<close> of section 4.1. On a hit the entry
  is promoted to most recently used and its value is returned; on a miss nothing changes.
\<close>

definition lru_Get :: "string \<Rightarrow> lru_Cache \<Rightarrow> lru_Cache \<times> Value option" where
  "lru_Get k c =
     (case find (\<lambda>e. entry_key e = k) (entries c) of
        None \<Rightarrow> (c, None)
      | Some e \<Rightarrow>
          (c\<lparr>entries := e # filter (\<lambda>e'. entry_key e' \<noteq> k) (entries c)\<rparr>,
           Some (entry_value e)))"

text \<open>
  Modelled from the spec: the eviction loop of \<^verbatim>\<open>Set\<close> in section 4.1. While the total
  weight exceeds Capacity the least recently used entry (the last one) is evicted; the
  entry just inserted (the first one) is never evicted, also when its own weight exceeds
  Capacity.
\<close>

function evict :: "int \<Rightarrow> entry list \<Rightarrow> entry list" where
  "evict cap es =
     (if cap < total_weight es \<and> 1 < length es then evict cap (butlast es) else es)"
  by pat_completeness auto
termination
  by (relation "measure (\<lambda>(cap, es). length es)") auto

declare evict.simps [simp del]

text \<open>
  Modelled from the spec: the insertion step of \<^verbatim>\<open>Set\<close> in section 4.1, called by lru.go
  as \<^verbatim>\<open>Set(key, v)\<close> with the weight taken from \<^verbatim>\<open>v.Size()\<close>. A new entry is inserted as
  most recently used; an existing key has its value and weight replaced and is promoted.
  This is the recency order right after the insertion and before any eviction.
\<close>

definition recency :: "string \<Rightarrow> Value \<Rightarrow> lru_Cache \<Rightarrow> entry list" where
  "recency k v c =
     \<lparr>entry_key = k, entry_value = v, entry_weight = Size v\<rparr>
       # filter (\<lambda>e. entry_key e \<noteq> k) (entries c)"

text \<open>
  Modelled from the spec: \<^verbatim>\<open>Set(key, value, weight)\<close> of section 4.1: the insertion, then
  the eviction loop.
\<close>

definition lru_Set :: "string \<Rightarrow> Value \<Rightarrow> lru_Cache \<Rightarrow> lru_Cache" where
  "lru_Set k v c = c\<lparr>entries := evict (capacity c) (recency k v c)\<rparr>"

text \<open>
  Modelled from the spec: \<^verbatim>\<open>Delete(key)\<close> of section 4.1 removes the entry if present and
  changes nothing otherwise.
\<close>

definition lru_Delete :: "string \<Rightarrow> lru_Cache \<Rightarrow> lru_Cache" where
  "lru_Delete k c = c\<lparr>entries := filter (\<lambda>e. entry_key e \<noteq> k) (entries c)\<rparr>"

text \<open>
  Modelled from the spec: \<^verbatim>\<open>Clear()\<close> of section 4.1 removes all entries; Capacity is
  unchanged.
\<close>

definition lru_Clear :: "lru_Cache \<Rightarrow> lru_Cache" where
  "lru_Clear c = c\<lparr>entries := []\<rparr>"

section \<open>The LRU backend (lru.go)\<close>

text \<open>
  \<^verbatim>\<open>LRUOptions\<close>, lines 27 to 32. \<^verbatim>\<open>Capacity\<close> is an int64; \<^verbatim>\<open>LRUCache\<close> is a pointer to
  the engine, \<open>None\<close> when nil. The engine behind the pointer is mutated in place by the
  Go code; here every operation returns the backend with the engine as it is afterwards.
\<close>

record LRUOptions =
  Capacity :: "64 word"
  TrackBySize :: bool
  TrackByObjectCount :: bool
  LRUCache :: "lru_Cache option"

record lruCache =
  opt :: LRUOptions

type_synonym NewStorageFn = "unit \<Rightarrow> lruCache \<times> error"

text \<open>
  \<^verbatim>\<open>NewLRU\<close>, lines 41 to 66. The argument is a pointer, \<open>None\<close> when nil; a nil argument
  is replaced by the zero value of \<^verbatim>\<open>LRUOptions\<close>. The switch takes the first case that
  holds. The engine is built with the resolved Capacity read as a signed number.
\<close>

definition NewLRU :: "LRUOptions option \<Rightarrow> NewStorageFn" where
  "NewLRU p =
     (let o0 = (case p of
                  None \<Rightarrow> \<lparr>Capacity = 0, TrackBySize = False,
                            TrackByObjectCount = False, LRUCache = None\<rparr>
                | Some x \<Rightarrow> x);
          o1 = (if TrackBySize o0 \<and> Capacity o0 = 0 then o0\<lparr>Capacity := push_bit 26 1\<rparr>
                else if TrackByObjectCount o0 \<and> Capacity o0 = 0 then o0\<lparr>Capacity := 5000\<rparr>
                else if TrackBySize o0 then o0
                else if TrackByObjectCount o0 then o0
                else o0\<lparr>TrackByObjectCount := True, Capacity := 5000\<rparr>);
          o2 = (if LRUCache o1 = None
                then o1\<lparr>LRUCache := Some (lru_New (sint (Capacity o1)))\<rparr>
                else o1)
      in (\<lambda>_. (\<lparr>opt = o2\<rparr>, None)))"

text \<open>The backend \<open>c\<close> with the engine pointer's target replaced.\<close>

definition with_engine :: "lruCache \<Rightarrow> lru_Cache option \<Rightarrow> lruCache" where
  "with_engine c p = c\<lparr>opt := (opt c)\<lparr>LRUCache := p\<rparr>\<rparr>"

text \<open>
  The value \<^verbatim>\<open>Set\<close> hands to the engine, lines 78 to 81: \<^verbatim>\<open>itemByCount(values[i])\<close>,
  replaced by \<^verbatim>\<open>itemBySize(values[i])\<close> when \<^verbatim>\<open>TrackBySize\<close> is set.
\<close>

definition wrap :: "bool \<Rightarrow> bytes \<Rightarrow> Value" where
  "wrap tbs x = (if tbs then itemBySize x else itemByCount x)"

text \<open>The conversion \<^verbatim>\<open>[]byte(itm.(T))\<close> of lines 93 and 95, once the assertion has held.\<close>

fun payload :: "Value \<Rightarrow> bytes" where
  "payload (itemBySize b) = b"
| "payload (itemByCount b) = b"

text \<open>
  The loop of \<^verbatim>\<open>Set\<close>, lines 77 to 83: the i-th key goes with \<^verbatim>\<open>values[i]\<close>, which panics
  when \<^verbatim>\<open>values\<close> has no i-th element. A call through a nil engine pointer panics; a
  backend made by \<^verbatim>\<open>NewLRU\<close> never has one.
\<close>

fun Set_loop ::
  "bool \<Rightarrow> lru_Cache option \<Rightarrow> string list \<Rightarrow> bytes list \<Rightarrow> lru_Cache option \<times> (panic + unit)"
where
  "Set_loop tbs p [] vals = (p, Inr ())"
| "Set_loop tbs p (key # keys) [] = (p, Inl IndexOutOfRange)"
| "Set_loop tbs p (key # keys) (x # vals) =
     (case p of
        None \<Rightarrow> (p, Inl NilDereference)
      | Some e \<Rightarrow>
          Set_loop tbs
            (Some (lru_Set key (wrap tbs x) e)) keys vals)"

text \<open>
  \<^verbatim>\<open>lruCache.Set\<close>, lines 76 to 85. The context and the expirations are bound to the blank
  identifier; the named result \<^verbatim>\<open>err\<close> is never assigned.
\<close>

definition Set ::
  "lruCache \<Rightarrow> string list \<Rightarrow> bytes list \<Rightarrow> Duration list \<Rightarrow> lruCache \<times> (panic + error)"
where
  "Set c keys vals exps =
     (case Set_loop (TrackBySize (opt c)) (LRUCache (opt c)) keys vals of
        (p, Inl x) \<Rightarrow> (with_engine c p, Inl x)
      | (p, Inr _) \<Rightarrow> (with_engine c p, Inr None))"

text \<open>
  The loop of \<^verbatim>\<open>Get\<close>, lines 89 to 100. On a hit the type assertion names
  \<^verbatim>\<open>itemByCount\<close> when \<^verbatim>\<open>TrackByObjectCount\<close> is set and \<^verbatim>\<open>itemBySize\<close> otherwise, and panics
  on a value of the other dynamic type; on a miss nil is appended.
\<close>

fun Get_loop ::
  "bool \<Rightarrow> lru_Cache option \<Rightarrow> string list \<Rightarrow> bytes list \<Rightarrow>
     lru_Cache option \<times> (panic + bytes list)"
where
  "Get_loop tboc p [] vals = (p, Inr vals)"
| "Get_loop tboc p (key # keys) vals =
     (case p of
        None \<Rightarrow> (p, Inl NilDereference)
      | Some e \<Rightarrow>
          (case lru_Get key e of
             (e', Some itm) \<Rightarrow>
               (if tboc then
                  (case itm of
                     itemByCount b \<Rightarrow> Get_loop tboc (Some e') keys (vals @ [b])
                   | itemBySize b \<Rightarrow> (Some e', Inl TypeAssertion))
                else
                  (case itm of
                     itemBySize b \<Rightarrow> Get_loop tboc (Some e') keys (vals @ [b])
                   | itemByCount b \<Rightarrow> (Some e', Inl TypeAssertion)))
           | (e', None) \<Rightarrow> Get_loop tboc (Some e') keys (vals @ [None])))"

text \<open>
  \<^verbatim>\<open>lruCache.Get\<close>, lines 88 to 102: \<^verbatim>\<open>values\<close> starts as the nil slice, \<^verbatim>\<open>err\<close> is never
  assigned.
\<close>

definition Get ::
  "lruCache \<Rightarrow> string list \<Rightarrow> lruCache \<times> (panic + bytes list \<times> error)"
where
  "Get c keys =
     (case Get_loop (TrackByObjectCount (opt c)) (LRUCache (opt c)) keys [] of
        (p, Inl x) \<Rightarrow> (with_engine c p, Inl x)
      | (p, Inr vals) \<Rightarrow> (with_engine c p, Inr (vals, None)))"

text \<open>\<^verbatim>\<open>lruCache.Truncate\<close>, lines 104 to 107.\<close>

definition Truncate :: "lruCache \<Rightarrow> lruCache \<times> (panic + error)" where
  "Truncate c =
     (case LRUCache (opt c) of
        None \<Rightarrow> (c, Inl NilDereference)
      | Some e \<Rightarrow> (with_engine c (Some (lru_Clear e)), Inr None))"

text \<open>\<^verbatim>\<open>lruCache.Delete\<close>, lines 109 to 114.\<close>

fun Delete_loop :: "lru_Cache option \<Rightarrow> string list \<Rightarrow> lru_Cache option \<times> (panic + unit)" where
  "Delete_loop p [] = (p, Inr ())"
| "Delete_loop p (key # keys) =
     (case p of
        None \<Rightarrow> (p, Inl NilDereference)
      | Some e \<Rightarrow> Delete_loop (Some (lru_Delete key e)) keys)"

definition Delete :: "lruCache \<Rightarrow> string list \<Rightarrow> lruCache \<times> (panic + error)" where
  "Delete c keys =
     (case Delete_loop (LRUCache (opt c)) keys of
        (p, Inl x) \<Rightarrow> (with_engine c p, Inl x)
      | (p, Inr _) \<Rightarrow> (with_engine c p, Inr None))"

text \<open>\<^verbatim>\<open>lruCache.Close\<close>, lines 116 to 119.\<close>

definition Close :: "lruCache \<Rightarrow> lruCache \<times> (panic + error)" where
  "Close c =
     (case LRUCache (opt c) of
        None \<Rightarrow> (c, Inl NilDereference)
      | Some e \<Rightarrow> (with_engine c (Some (lru_Clear e)), Inr None))"


section \<open>Sequences of calls and the scenarios of the specification\<close>

text \<open>
  A sequence of \<^verbatim>\<open>Set\<close> calls on one backend, each call a batch (keys, values,
  expirations); a panic ends the sequence.
\<close>

fun Set_calls ::
  "lruCache \<Rightarrow> (string list \<times> bytes list \<times> Duration list) list \<Rightarrow> lruCache \<times> (panic + error)"
where
  "Set_calls c [] = (c, Inr None)"
| "Set_calls c ((keys, vals, exps) # calls) =
     (case Set c keys vals exps of
        (c', Inl x) \<Rightarrow> (c', Inl x)
      | (c', Inr _) \<Rightarrow> Set_calls c' calls)"

text \<open>The items a sequence of completed calls hands to the engine, in order.\<close>

definition inserted ::
  "(string list \<times> bytes list \<times> Duration list) list \<Rightarrow> (string \<times> bytes) list"
where
  "inserted calls = concat (map (\<lambda>(keys, vals, exps). zip keys vals) calls)"

text \<open>One item of a batch handed to the engine by \<^verbatim>\<open>Set\<close> (lines 78 to 82).\<close>

abbreviation Set_step :: "bool \<Rightarrow> lru_Cache \<Rightarrow> string \<times> bytes \<Rightarrow> lru_Cache" where
  "Set_step tbs \<equiv> (\<lambda>e (k, x). lru_Set k (wrap tbs x) e)"

text \<open>
  Every weight held by the engine is non-negative: so it is in a new engine, and every
  weight \<^verbatim>\<open>Set\<close> stores is a \<^verbatim>\<open>Size()\<close>, which is 1 or a length.
\<close>

definition weights_nonneg :: "lru_Cache \<Rightarrow> bool" where
  "weights_nonneg e = (\<forall>en\<in>set (entries e). 0 \<le> entry_weight en)"

text \<open>A backend tracking by total size with a Capacity of 10 bytes (scenario B).\<close>

definition sizeBackend :: lruCache where
  "sizeBackend =
     fst (NewLRU (Some \<lparr>Capacity = 10, TrackBySize = True, TrackByObjectCount = False,
                         LRUCache = None\<rparr>) ())"

definition scenarioB :: "(string list \<times> bytes list \<times> Duration list) list" where
  "scenarioB =
     [([''x''], [Some [1, 2, 3, 4, 5, 6]], [0]), ([''y''], [Some [6, 5, 4, 3, 2, 1]], [0])]"

definition oversized :: "(string list \<times> bytes list \<times> Duration list) list" where
  "oversized =
     [([''x''], [Some [1, 2, 3, 4, 5, 6]], [0]),
      ([''big''], [Some [1, 2, 3, 4, 5, 6, 7, 8, 9, 10, 11, 12]], [0])]"

text \<open>A backend tracking by object count with a Capacity of 2 (scenarios A and C).\<close>

definition countBackend :: lruCache where
  "countBackend =
     fst (NewLRU (Some \<lparr>Capacity = 2, TrackBySize = False, TrackByObjectCount = True,
                         LRUCache = None\<rparr>) ())"

text \<open>Options with both flags set, and the backend \<^verbatim>\<open>NewLRU\<close> makes of them.\<close>

definition bothOpts :: LRUOptions where
  "bothOpts = \<lparr>Capacity = 10, TrackBySize = True, TrackByObjectCount = True, LRUCache = None\<rparr>"

definition bothBackend :: lruCache where
  "bothBackend = fst (NewLRU (Some bothOpts) ())"

text \<open>
  Scenario C of the specification: Set a, Set b, Get a, Set c on the count backend; and
  scenario A: Set a, Set b, Set c with no Get.
\<close>

definition scenarioC :: lruCache where
  "scenarioC =
     (let c1 = fst (Set countBackend [''a''] [Some [88]] [0]);
          c2 = fst (Set c1 [''b''] [Some [89]] [0]);
          c3 = fst (Get c2 [''a''])
      in fst (Set c3 [''c''] [Some [90]] [0]))"

definition scenarioA :: lruCache where
  "scenarioA =
     (let c1 = fst (Set countBackend [''a''] [Some [88]] [0]);
          c2 = fst (Set c1 [''b''] [Some [89]] [0])
      in fst (Set c2 [''c''] [Some [90]] [0]))"

text \<open>The size backend after scenario B, and an engine holding b (most recent) and a.\<close>

definition afterB :: lruCache where
  "afterB = fst (Set_calls sizeBackend scenarioB)"

definition twoEntries :: lru_Cache where
  "twoEntries =
     \<lparr>entries =
        [\<lparr>entry_key = ''b'', entry_value = itemByCount (Some [89]), entry_weight = 1\<rparr>,
         \<lparr>entry_key = ''a'', entry_value = itemByCount (Some [88]), entry_weight = 1\<rparr>],
      capacity = 2\<rparr>"

section \<open>Notions used to state the claims\<close>

text \<open>The entry the engine holds for a key, if any: the one a \<^verbatim>\<open>Get\<close> of the key hits.\<close>

definition cached :: "string \<Rightarrow> lru_Cache \<Rightarrow> entry option" where
  "cached k e = find (\<lambda>en. entry_key en = k) (entries e)"

text \<open>
  The type assertion of \<^verbatim>\<open>Get\<close> (lines 92 to 96) holds for a value: it is an
  \<^verbatim>\<open>itemByCount\<close> when \<^verbatim>\<open>TrackByObjectCount\<close> is set and an \<^verbatim>\<open>itemBySize\<close> otherwise. An
  engine is stored as the flag says when the assertion holds for every value it holds.
\<close>

definition asserted :: "bool \<Rightarrow> Value \<Rightarrow> bool" where
  "asserted tboc itm = (case itm of itemByCount b \<Rightarrow> tboc | itemBySize b \<Rightarrow> \<not> tboc)"

definition stored_as :: "bool \<Rightarrow> lru_Cache \<Rightarrow> bool" where
  "stored_as tboc e = (\<forall>en\<in>set (entries e). asserted tboc (entry_value en))"

text \<open>What \<^verbatim>\<open>Get\<close> answers for one key: the bytes cached for it, nil when there are none.\<close>

definition answer :: "lru_Cache \<Rightarrow> string \<Rightarrow> bytes" where
  "answer e k = (case cached k e of None \<Rightarrow> None | Some en \<Rightarrow> payload (entry_value en))"

section \<open>The eviction loop\<close>

lemma evict_Nil [simp]: "evict cap [] = []"
  by (simp add: evict.simps)

lemma evict_single [simp]: "evict cap [x] = [x]"
  by (simp add: evict.simps)

lemma evict_prefix:
  "\<exists>n. evict cap es = take n es \<and> n \<le> length es \<and> (es \<noteq> [] \<longrightarrow> 1 \<le> n) \<and>
       (total_weight (take n es) \<le> cap \<or> n \<le> 1) \<and>
       (\<forall>m. n < m \<and> m \<le> length es \<longrightarrow> cap < total_weight (take m es))"
proof (induction cap es rule: evict.induct)
  case (1 cap es)
  show ?case
  proof (cases "cap < total_weight es \<and> 1 < length es")
    case True
    then have step: "evict cap es = evict cap (butlast es)"
      by (subst evict.simps) simp
    from True have ne: "butlast es \<noteq> []"
      by (cases es rule: rev_cases) auto
    from 1 [OF True] obtain n where
      n: "evict cap (butlast es) = take n (butlast es)" "n \<le> length (butlast es)"
         "1 \<le> n" "total_weight (take n (butlast es)) \<le> cap \<or> n \<le> 1"
         "\<forall>m. n < m \<and> m \<le> length (butlast es) \<longrightarrow> cap < total_weight (take m (butlast es))"
      using ne by blast
    have tk: "\<And>m. m \<le> length (butlast es) \<Longrightarrow> take m (butlast es) = take m es"
      by (simp add: butlast_conv_take)
    have far: "cap < total_weight (take m es)" if "n < m" "m \<le> length es" for m
    proof (cases "m \<le> length (butlast es)")
      case True
      with n(5) that tk show ?thesis by auto
    next
      case False
      with that have "m = length es" by simp
      with \<open>cap < total_weight es \<and> 1 < length es\<close> show ?thesis by simp
    qed
    from n tk have "evict cap es = take n es" "n \<le> length es"
      "total_weight (take n es) \<le> cap \<or> n \<le> 1"
      using step by auto
    with n(3) far show ?thesis by blast
  next
    case False
    then have "evict cap es = es"
      by (subst evict.simps) auto
    moreover from False have "total_weight es \<le> cap \<or> length es \<le> 1" by auto
    moreover have "es \<noteq> [] \<longrightarrow> 1 \<le> length es" by (cases es) auto
    ultimately show ?thesis
      by (intro exI [of _ "length es"]) simp
  qed
qed

lemma evict_subset: "set (evict cap es) \<subseteq> set es"
  using evict_prefix [of cap es] by (auto dest: in_set_takeD)

lemma evict_Cons: "\<exists>rest. evict cap (x # es) = x # rest \<and> set rest \<subseteq> set es"
proof -
  from evict_prefix [of cap "x # es"] obtain n where
    "evict cap (x # es) = take n (x # es)" "1 \<le> n" by auto
  then show ?thesis
    by (cases n) (auto dest: in_set_takeD)
qed

lemma total_weight_Cons [simp]: "total_weight (x # es) = entry_weight x + total_weight es"
  by (simp add: total_weight_def)

lemma total_weight_Nil [simp]: "total_weight [] = 0"
  by (simp add: total_weight_def)

lemma total_weight_nonneg:
  "\<forall>en\<in>set es. 0 \<le> entry_weight en \<Longrightarrow> 0 \<le> total_weight es"
  by (induction es) auto

lemma evict_oversize:
  assumes "\<forall>en\<in>set es. 0 \<le> entry_weight en" and "cap < entry_weight x"
  shows "evict cap (x # es) = [x]"
proof -
  from evict_prefix [of cap "x # es"] obtain n where
    n: "evict cap (x # es) = take n (x # es)" "1 \<le> n"
       "total_weight (take n (x # es)) \<le> cap \<or> n \<le> 1" by auto
  then obtain m where m: "n = Suc m" by (cases n) auto
  have "\<forall>en\<in>set (take m es). 0 \<le> entry_weight en"
    using assms(1) by (auto dest: in_set_takeD)
  then have "0 \<le> total_weight (take m es)" by (rule total_weight_nonneg)
  with assms(2) have "cap < total_weight (take n (x # es))" by (simp add: m)
  with n(3) have "n = 1" using n(2) by simp
  with n(1) show ?thesis by simp
qed

lemma evict_within:
  assumes "entry_weight x \<le> cap"
  shows "total_weight (evict cap (x # es)) \<le> cap"
proof -
  from evict_prefix [of cap "x # es"] obtain n where
    n: "evict cap (x # es) = take n (x # es)" "1 \<le> n"
       "total_weight (take n (x # es)) \<le> cap \<or> n \<le> 1" by auto
  show ?thesis
  proof (cases "n = 1")
    case True
    with n(1) assms show ?thesis by simp
  next
    case False
    with n show ?thesis by auto
  qed
qed

section \<open>The engine's Set and the Set loop of the backend\<close>

lemma Size_nonneg: "0 \<le> Size v"
  by (cases v) auto

lemma capacity_lru_Set [simp]: "capacity (lru_Set k v e) = capacity e"
  by (simp add: lru_Set_def recency_def)

lemma lru_Set_Cons:
  "\<exists>rest. entries (lru_Set k v e) = \<lparr>entry_key = k, entry_value = v, entry_weight = Size v\<rparr> # rest
        \<and> (\<forall>en\<in>set rest. en \<in> set (entries e) \<and> entry_key en \<noteq> k)"
  using evict_Cons [of "capacity e" "\<lparr>entry_key = k, entry_value = v, entry_weight = Size v\<rparr>"
      "filter (\<lambda>en. entry_key en \<noteq> k) (entries e)"]
  by (auto simp: lru_Set_def recency_def)

lemma weights_nonneg_lru_Set: "weights_nonneg e \<Longrightarrow> weights_nonneg (lru_Set k v e)"
  using lru_Set_Cons [of k v e] by (auto simp: weights_nonneg_def Size_nonneg)

lemma lru_Set_capacity_step:
  assumes "weights_nonneg e"
  shows "(if capacity e < Size v
          then entries (lru_Set k v e) = [\<lparr>entry_key = k, entry_value = v, entry_weight = Size v\<rparr>]
          else total_weight (entries (lru_Set k v e)) \<le> capacity e)"
proof (cases "capacity e < Size v")
  case True
  have "\<forall>en\<in>set (filter (\<lambda>en. entry_key en \<noteq> k) (entries e)). 0 \<le> entry_weight en"
    using assms by (simp add: weights_nonneg_def)
  from evict_oversize [OF this, of "capacity e" "\<lparr>entry_key = k, entry_value = v, entry_weight = Size v\<rparr>"]
  show ?thesis using True by (simp add: lru_Set_def recency_def)
next
  case False
  then show ?thesis
    using evict_within [of "\<lparr>entry_key = k, entry_value = v, entry_weight = Size v\<rparr>" "capacity e"
        "filter (\<lambda>en. entry_key en \<noteq> k) (entries e)"]
    by (simp add: lru_Set_def recency_def)
qed

lemma Set_loop_Some:
  "length keys \<le> length vals \<Longrightarrow>
   Set_loop tbs (Some e) keys vals = (Some (foldl (Set_step tbs) e (zip keys vals)), Inr ())"
proof (induction keys arbitrary: e vals)
  case Nil
  then show ?case by simp
next
  case (Cons k keys)
  then show ?case by (cases vals) (auto simp: wrap_def)
qed

lemma Set_loop_short:
  "length vals < length keys \<Longrightarrow> snd (Set_loop tbs (Some e) keys vals) = Inl IndexOutOfRange"
proof (induction keys arbitrary: e vals)
  case Nil
  then show ?case by simp
next
  case (Cons k keys)
  then show ?case by (cases vals) auto
qed

lemma with_engine_simps [simp]:
  "LRUCache (opt (with_engine c p)) = p"
  "TrackBySize (opt (with_engine c p)) = TrackBySize (opt c)"
  "TrackByObjectCount (opt (with_engine c p)) = TrackByObjectCount (opt c)"
  "Capacity (opt (with_engine c p)) = Capacity (opt c)"
  "with_engine (with_engine c p) q = with_engine c q"
  by (simp_all add: with_engine_def)

lemma with_engine_same: "LRUCache (opt c) = p \<Longrightarrow> with_engine c p = c"
  by (auto simp: with_engine_def)

lemma Set_complete:
  assumes "LRUCache (opt c) = Some e" and "length keys \<le> length vals"
  shows "Set c keys vals exps =
           (with_engine c (Some (foldl (Set_step (TrackBySize (opt c))) e (zip keys vals))), Inr None)"
  using assms by (simp add: Set_def Set_loop_Some)

lemma Set_panics:
  assumes "LRUCache (opt c) = Some e" and "length vals < length keys"
  shows "snd (Set c keys vals exps) = Inl IndexOutOfRange"
  using Set_loop_short [OF assms(2), of "TrackBySize (opt c)" e] assms(1)
  by (auto simp: Set_def split: prod.splits sum.splits)

lemma Set_calls_engine:
  assumes "LRUCache (opt c) = Some e" and "Set_calls c calls = (c', Inr err)"
  shows "c' = with_engine c (Some (foldl (Set_step (TrackBySize (opt c))) e (inserted calls)))
         \<and> err = None"
  using assms
proof (induction calls arbitrary: c e)
  case Nil
  then show ?case by (simp add: inserted_def with_engine_same)
next
  case (Cons call calls)
  obtain keys vals exps where call: "call = (keys, vals, exps)" by (cases call) auto
  show ?case
  proof (cases "length keys \<le> length vals")
    case True
    let ?e1 = "foldl (Set_step (TrackBySize (opt c))) e (zip keys vals)"
    let ?c1 = "with_engine c (Some ?e1)"
    from Set_complete [OF Cons.prems(1) True, of exps]
    have s: "Set c keys vals exps = (?c1, Inr None)" .
    with Cons.prems(2) call have "Set_calls ?c1 calls = (c', Inr err)" by simp
    from Cons.IH [OF _ this, of ?e1] show ?thesis
      by (simp add: call inserted_def)
  next
    case False
    then have "snd (Set c keys vals exps) = Inl IndexOutOfRange"
      using Set_panics [OF Cons.prems(1), of vals keys exps] by simp
    with Cons.prems(2) call show ?thesis
      by (auto split: prod.splits sum.splits)
  qed
qed

lemma foldl_Set_step_inv:
  "weights_nonneg e \<Longrightarrow> weights_nonneg (foldl (Set_step tbs) e items)"
  by (induction items arbitrary: e) (auto simp: weights_nonneg_lru_Set)

lemma capacity_foldl_Set_step [simp]: "capacity (foldl (Set_step tbs) e items) = capacity e"
  by (induction items arbitrary: e) auto

lemma weights_nonneg_New [simp]: "weights_nonneg (lru_New cap)"
  by (simp add: weights_nonneg_def lru_New_def)


section \<open>Lookups in the engine\<close>

lemma find_filter_other:
  "k \<noteq> k' \<Longrightarrow> find (\<lambda>en. entry_key en = k) (filter (\<lambda>en. entry_key en \<noteq> k') es)
     = find (\<lambda>en. entry_key en = k) es"
  by (induction es) auto

lemma find_filter_same:
  "find (\<lambda>en. entry_key en = k) (filter (\<lambda>en. entry_key en \<noteq> k) es) = None"
  by (induction es) auto

lemma cached_in_set: "cached k e = Some en \<Longrightarrow> en \<in> set (entries e) \<and> entry_key en = k"
  unfolding cached_def by (induction "entries e" arbitrary: e) (auto simp: find_Some_iff in_set_conv_nth)

lemma cached_None: "cached k e = None \<Longrightarrow> \<forall>en\<in>set (entries e). entry_key en \<noteq> k"
  by (auto simp: cached_def find_None_iff)

lemma lru_Get_miss: "cached k e = None \<Longrightarrow> lru_Get k e = (e, None)"
  by (simp add: lru_Get_def cached_def)

lemma lru_Get_hit:
  "cached k e = Some en \<Longrightarrow>
   lru_Get k e = (e\<lparr>entries := en # filter (\<lambda>x. entry_key x \<noteq> k) (entries e)\<rparr>, Some (entry_value en))"
  by (simp add: lru_Get_def cached_def)

lemma cached_lru_Get: "cached k (fst (lru_Get k' e)) = cached k e"
proof (cases "cached k' e")
  case None
  then show ?thesis by (simp add: lru_Get_miss)
next
  case (Some en')
  then have "entry_key en' = k'" by (auto dest: cached_in_set)
  with Some show ?thesis
    by (cases "k = k'") (auto simp: lru_Get_hit cached_def find_filter_other)
qed

lemma set_entries_lru_Get: "set (entries (fst (lru_Get k e))) \<subseteq> set (entries e)"
proof (cases "cached k e")
  case None
  then show ?thesis by (simp add: lru_Get_miss)
next
  case (Some en)
  then show ?thesis
    by (auto simp: lru_Get_hit dest: cached_in_set)
qed

lemma capacity_lru_Get [simp]: "capacity (fst (lru_Get k e)) = capacity e"
  by (simp add: lru_Get_def split: option.splits)

lemma cached_lru_Set_same:
  "cached k (lru_Set k v e) = Some \<lparr>entry_key = k, entry_value = v, entry_weight = Size v\<rparr>"
  using lru_Set_Cons [of k v e] by (auto simp: cached_def)

section \<open>The loops of the backend\<close>

lemma Set_returns_length:
  assumes "LRUCache (opt c) = Some e" and "Set c keys vals exps = (c', Inr err)"
  shows "length keys \<le> length vals"
proof (rule ccontr)
  assume "\<not> length keys \<le> length vals"
  then have "snd (Set c keys vals exps) = Inl IndexOutOfRange"
    using Set_panics [OF assms(1), of vals keys exps] by simp
  with assms(2) show False by simp
qed

lemma Size_wrap: "Size (wrap tbs y) = (if tbs then int (len_bytes y) else 1)"
  by (simp add: wrap_def)

lemma foldl_Set_step_entries:
  "\<forall>en\<in>set (entries (foldl (Set_step tbs) e items)).
     entry_key en \<in> fst ` set items \<longrightarrow>
       wrap tbs (payload (entry_value en)) = entry_value en \<and> entry_weight en = Size (entry_value en)"
proof (induction items arbitrary: e rule: rev_induct)
  case Nil
  then show ?case by simp
next
  case (snoc item items)
  obtain k x where item: "item = (k, x)" by (cases item) auto
  let ?e1 = "foldl (Set_step tbs) e items"
  from lru_Set_Cons [of k "wrap tbs x" ?e1] obtain rest where
    rest: "entries (lru_Set k (wrap tbs x) ?e1) =
             \<lparr>entry_key = k, entry_value = wrap tbs x, entry_weight = Size (wrap tbs x)\<rparr> # rest"
          "\<forall>en\<in>set rest. en \<in> set (entries ?e1) \<and> entry_key en \<noteq> k"
    by blast
  have w: "wrap tbs (payload (wrap tbs x)) = wrap tbs x"
    by (simp add: wrap_def)
  show ?case
    using snoc.IH [of e] rest w by (auto simp: item)
qed

lemma Set_entries_wrapped:
  assumes e: "LRUCache (opt c) = Some e" and s: "Set c keys vals exps = (c', Inr err)"
  shows "\<exists>e'. LRUCache (opt c') = Some e' \<and>
           (\<forall>en\<in>set (entries e'). entry_key en \<in> set keys \<longrightarrow>
              wrap (TrackBySize (opt c)) (payload (entry_value en)) = entry_value en \<and>
              entry_weight en =
                (if TrackBySize (opt c) then int (len_bytes (payload (entry_value en))) else 1))"
proof -
  let ?tbs = "TrackBySize (opt c)"
  let ?e' = "foldl (Set_step ?tbs) e (zip keys vals)"
  have len: "length keys \<le> length vals"
    using e s by (rule Set_returns_length)
  from Set_complete [OF e len, of exps] s have c': "LRUCache (opt c') = Some ?e'" by auto
  have "map fst (zip keys vals) = keys"
    using len by (simp add: map_fst_zip_take min_absorb1)
  then have "set (map fst (zip keys vals)) = set keys" by simp
  then have keys: "fst ` set (zip keys vals) = set keys" by simp
  have "wrap ?tbs (payload (entry_value en)) = entry_value en \<and>
        entry_weight en = (if ?tbs then int (len_bytes (payload (entry_value en))) else 1)"
    if "en \<in> set (entries ?e')" and "entry_key en \<in> set keys" for en
  proof -
    from foldl_Set_step_entries [of ?tbs e "zip keys vals"] that keys
    have a: "wrap ?tbs (payload (entry_value en)) = entry_value en"
      and b: "entry_weight en = Size (entry_value en)" by blast+
    have "Size (wrap ?tbs (payload (entry_value en))) =
            (if ?tbs then int (len_bytes (payload (entry_value en))) else 1)"
      by (rule Size_wrap)
    with a have "Size (entry_value en) =
            (if ?tbs then int (len_bytes (payload (entry_value en))) else 1)"
      by simp
    with b a show ?thesis by simp
  qed
  with c' show ?thesis by blast
qed

lemma Set_single:
  assumes e: "LRUCache (opt c) = Some e"
  shows "\<exists>e' rest. Set c [k] [x] exps = (with_engine c (Some e'), Inr None) \<and>
           entries e' =
             \<lparr>entry_key = k, entry_value = wrap (TrackBySize (opt c)) x,
               entry_weight = (if TrackBySize (opt c) then int (len_bytes x) else 1)\<rparr> # rest"
proof -
  let ?tbs = "TrackBySize (opt c)"
  from lru_Set_Cons [of k "wrap ?tbs x" e] obtain rest where
    r: "entries (lru_Set k (wrap ?tbs x) e) =
       \<lparr>entry_key = k, entry_value = wrap ?tbs x, entry_weight = Size (wrap ?tbs x)\<rparr> # rest"
    by blast
  have "Set c [k] [x] exps = (with_engine c (Some (lru_Set k (wrap ?tbs x) e)), Inr None)"
    using Set_complete [OF e, of "[k]" "[x]" exps] by simp
  with r show ?thesis
    by (intro exI [of _ "lru_Set k (wrap ?tbs x) e"] exI [of _ rest]) (simp add: Size_wrap)
qed

lemma Get_loop_TypeAssertion:
  assumes "cached k e = Some en" and "\<not> asserted tboc (entry_value en)" and "k \<in> set ks"
  shows "snd (Get_loop tboc (Some e) ks acc) = Inl TypeAssertion"
  using assms
proof (induction ks arbitrary: e acc)
  case Nil
  then show ?case by simp
next
  case (Cons k' ks)
  show ?case
  proof (cases "k' = k")
    case True
    with Cons.prems(1,2) show ?thesis
      by (auto simp: lru_Get_hit asserted_def split: Value.splits)
  next
    case False
    with Cons.prems(3) have in_ks: "k \<in> set ks" by simp
    obtain e' r where g: "lru_Get k' e = (e', r)" by (cases "lru_Get k' e") auto
    then have "cached k e' = Some en"
      using cached_lru_Get [of k k' e] Cons.prems(1) by simp
    from Cons.IH [OF this Cons.prems(2) in_ks]
    show ?thesis
      by (auto simp: g split: option.splits Value.splits)
  qed
qed

lemma Get_TypeAssertion:
  assumes "LRUCache (opt c) = Some e" and "cached k e = Some en"
      and "\<not> asserted (TrackByObjectCount (opt c)) (entry_value en)" and "k \<in> set ks"
  shows "snd (Get c ks) = Inl TypeAssertion"
  using Get_loop_TypeAssertion [OF assms(2,3,4), of "[]"] assms(1)
  by (auto simp: Get_def split: prod.splits sum.splits)

lemma Get_loop_answers:
  assumes "stored_as tboc e"
  shows "\<exists>e'. Get_loop tboc (Some e) ks acc = (Some e', Inr (acc @ map (answer e) ks))
            \<and> set (entries e') \<subseteq> set (entries e) \<and> capacity e' = capacity e
            \<and> (\<forall>k. cached k e' = cached k e)"
  using assms
proof (induction ks arbitrary: e acc)
  case Nil
  then show ?case by simp
next
  case (Cons k ks)
  let ?e1 = "fst (lru_Get k e)"
  have s1: "stored_as tboc ?e1"
    using Cons.prems set_entries_lru_Get [of k e] by (auto simp: stored_as_def)
  have a1: "answer ?e1 = answer e"
    by (auto simp: answer_def cached_lru_Get)
  from Cons.IH [OF s1, of "acc @ [answer e k]"] obtain e' where
    e': "Get_loop tboc (Some ?e1) ks (acc @ [answer e k])
           = (Some e', Inr (acc @ answer e k # map (answer e) ks))"
        "set (entries e') \<subseteq> set (entries e)" "capacity e' = capacity e"
        "\<forall>k'. cached k' e' = cached k' e"
    using set_entries_lru_Get [of k e] by (auto simp: a1 cached_lru_Get)
  show ?case
  proof (cases "cached k e")
    case None
    with e' show ?thesis
      by (auto simp: lru_Get_miss answer_def)
  next
    case (Some en)
    then have "asserted tboc (entry_value en)"
      using Cons.prems by (auto simp: stored_as_def dest: cached_in_set)
    with Some e' show ?thesis
      by (auto simp: lru_Get_hit answer_def asserted_def split: Value.splits)
  qed
qed

lemma Get_returns:
  assumes "LRUCache (opt c) = Some e" and "stored_as (TrackByObjectCount (opt c)) e"
  shows "\<exists>e'. Get c keys = (with_engine c (Some e'), Inr (map (answer e) keys, None))"
  using Get_loop_answers [OF assms(2), of keys "[]"] assms(1) by (auto simp: Get_def)

lemma Get_loop_empty:
  "entries e = [] \<Longrightarrow>
   Get_loop tboc (Some e) ks acc = (Some e, Inr (acc @ replicate (length ks) None))"
proof (induction ks arbitrary: acc)
  case Nil
  then show ?case by simp
next
  case (Cons k ks)
  have "lru_Get k e = (e, None)"
    using Cons.prems by (simp add: lru_Get_def)
  with Cons show ?case
    by (simp add: replicate_app_Cons_same)
qed

lemma Delete_loop_Some: "\<exists>e'. Delete_loop (Some e) keys = (Some e', Inr ())"
  by (induction keys arbitrary: e) auto

lemma Delete_returns:
  assumes "LRUCache (opt c) = Some e"
  shows "\<exists>e'. Delete c keys = (with_engine c (Some e'), Inr None)"
  using Delete_loop_Some [of e keys] assms by (auto simp: Delete_def)

section \<open>Backends made by \<^verbatim>\<open>NewLRU\<close>\<close>

lemma NewLRU_engine: "\<exists>e. LRUCache (opt (fst (NewLRU p ()))) = Some e"
  by (cases p) (auto simp: NewLRU_def Let_def)

lemma NewLRU_error: "snd (NewLRU p ()) = None"
  by (simp add: NewLRU_def Let_def)

lemma NewLRU_flags:
  "TrackBySize opts \<Longrightarrow> TrackBySize (opt (fst (NewLRU (Some opts) ())))"
  "TrackByObjectCount opts \<Longrightarrow> TrackByObjectCount (opt (fst (NewLRU (Some opts) ())))"
  by (simp_all add: NewLRU_def Let_def)

lemma NewLRU_fresh:
  "LRUCache opts = None \<Longrightarrow>
   LRUCache (opt (fst (NewLRU (Some opts) ()))) =
     Some (lru_New (sint (Capacity (opt (fst (NewLRU (Some opts) ()))))))"
  by (simp add: NewLRU_def Let_def)

lemma sizeBackend_engine: "LRUCache (opt sizeBackend) = Some (lru_New 10)"
  by (simp add: sizeBackend_def NewLRU_def)

lemma sizeBackend_flags:
  "TrackBySize (opt sizeBackend)" "\<not> TrackByObjectCount (opt sizeBackend)"
  by (simp_all add: sizeBackend_def NewLRU_def)

lemma countBackend_engine: "LRUCache (opt countBackend) = Some (lru_New 2)"
  by (simp add: countBackend_def NewLRU_def)

lemma countBackend_flags:
  "\<not> TrackBySize (opt countBackend)" "TrackByObjectCount (opt countBackend)"
  by (simp_all add: countBackend_def NewLRU_def)

lemma stored_as_New [simp]: "stored_as tboc (lru_New cap)"
  by (simp add: stored_as_def lru_New_def)

lemma asserted_wrap: "tbs \<noteq> tboc \<Longrightarrow> asserted tboc (wrap tbs x)"
  by (auto simp: asserted_def wrap_def)

lemma stored_as_lru_Set:
  "stored_as tboc e \<Longrightarrow> asserted tboc v \<Longrightarrow> stored_as tboc (lru_Set k v e)"
  using lru_Set_Cons [of k v e] by (auto simp: stored_as_def)

lemma stored_as_foldl:
  "stored_as tboc e \<Longrightarrow> tbs \<noteq> tboc \<Longrightarrow> stored_as tboc (foldl (Set_step tbs) e items)"
  by (induction items arbitrary: e) (auto simp: stored_as_lru_Set asserted_wrap)

section \<open>What leaves the engine\<close>

lemma evict_fits: "total_weight es \<le> cap \<Longrightarrow> evict cap es = es"
  by (subst evict.simps) simp

lemma lru_Set_fits:
  "total_weight (recency k v e) \<le> capacity e \<Longrightarrow> entries (lru_Set k v e) = recency k v e"
  by (simp add: lru_Set_def evict_fits)

lemma Get_loop_keeps_cached:
  "\<exists>e'. fst (Get_loop tboc (Some e) ks acc) = Some e' \<and> (\<forall>k. cached k e' = cached k e)"
proof (induction ks arbitrary: e acc)
  case Nil
  then show ?case by simp
next
  case (Cons k ks)
  obtain e1 r where g: "lru_Get k e = (e1, r)" by (cases "lru_Get k e") auto
  then have c1: "\<forall>k'. cached k' e1 = cached k' e"
    using cached_lru_Get [of _ k e] by simp
  have step: "\<exists>e'. fst (Get_loop tboc (Some e1) ks acc') = Some e' \<and> (\<forall>k. cached k e' = cached k e)"
    for acc'
    using Cons.IH [of e1 acc'] c1 by simp
  show ?case
  proof (cases r)
    case None
    with g step show ?thesis by simp
  next
    case (Some itm)
    with g step c1 show ?thesis
      by (cases itm; cases tboc) simp_all
  qed
qed

lemma Get_keeps_cached:
  assumes "LRUCache (opt c) = Some e"
  shows "\<exists>e'. LRUCache (opt (fst (Get c keys))) = Some e' \<and> (\<forall>k. cached k e' = cached k e)"
proof -
  from Get_loop_keeps_cached [of "TrackByObjectCount (opt c)" e keys "[]"] obtain e' where
    "fst (Get_loop (TrackByObjectCount (opt c)) (Some e) keys []) = Some e'"
    "\<forall>k. cached k e' = cached k e" by blast
  with assms show ?thesis
    by (auto simp: Get_def split: prod.splits sum.splits)
qed

lemma cached_lru_Delete: "k \<noteq> k' \<Longrightarrow> cached k (lru_Delete k' e) = cached k e"
  by (simp add: cached_def lru_Delete_def find_filter_other)

lemma Delete_loop_keeps_others:
  "k \<notin> set keys \<Longrightarrow>
   \<exists>e'. fst (Delete_loop (Some e) keys) = Some e' \<and> cached k e' = cached k e"
proof (induction keys arbitrary: e)
  case Nil
  then show ?case by simp
next
  case (Cons k' keys)
  then have "k \<noteq> k'" and "k \<notin> set keys" by auto
  with Cons.IH [of "lru_Delete k' e"] show ?case
    by (simp add: cached_lru_Delete)
qed

lemma Delete_keeps_others:
  assumes "LRUCache (opt c) = Some e" and "k \<notin> set keys"
  shows "\<exists>e'. LRUCache (opt (fst (Delete c keys))) = Some e' \<and> cached k e' = cached k e"
proof -
  from Delete_loop_keeps_others [OF assms(2), of e] obtain e' where
    "fst (Delete_loop (Some e) keys) = Some e'" "cached k e' = cached k e" by blast
  with assms(1) show ?thesis
    by (auto simp: Delete_def split: prod.splits sum.splits)
qed

lemma Set_single_fits:
  assumes "LRUCache (opt c) = Some e"
      and "total_weight (recency k (wrap (TrackBySize (opt c)) x) e) \<le> capacity e"
  shows "Set c [k] [x] exps =
           (with_engine c (Some (e\<lparr>entries := recency k (wrap (TrackBySize (opt c)) x) e\<rparr>)),
            Inr None)"
proof -
  have "lru_Set k (wrap (TrackBySize (opt c)) x) e
          = e\<lparr>entries := recency k (wrap (TrackBySize (opt c)) x) e\<rparr>"
    using assms(2) by (simp add: lru_Set_def evict_fits)
  then show ?thesis
    using Set_complete [OF assms(1), of "[k]" "[x]" exps] by simp
qed

section \<open>The claims\<close>

text \<open>
  C1. After every sequence of \<^verbatim>\<open>Set\<close> calls that complete, on a backend whose engine
  holds no negative weight (a new engine holds none, and \<^verbatim>\<open>Set\<close> stores none): when the
  sequence inserted nothing the engine is as before; otherwise, with the item inserted
  last, either its own weight exceeds Capacity and the engine holds that item alone, the
  total weight being the item's weight, or the total weight is at most Capacity. Every
  prefix of a sequence is a sequence, so this holds after each call.
\<close>

theorem Set_capacity_invariant:
  assumes "LRUCache (opt c) = Some e"
      and "weights_nonneg e"
      and "Set_calls c calls = (c', Inr err)"
  shows "\<exists>e'. LRUCache (opt c') = Some e' \<and> capacity e' = capacity e \<and>
           (if inserted calls = [] then e' = e
            else (let (k, x) = last (inserted calls); v = wrap (TrackBySize (opt c)) x in
                  if capacity e < Size v
                  then entries e' = [\<lparr>entry_key = k, entry_value = v, entry_weight = Size v\<rparr>]
                       \<and> total_weight (entries e') = Size v
                  else total_weight (entries e') \<le> capacity e))"
proof -
  let ?tbs = "TrackBySize (opt c)"
  let ?e' = "foldl (Set_step ?tbs) e (inserted calls)"
  from Set_calls_engine [OF assms(1,3)] have c': "LRUCache (opt c') = Some ?e'" by simp
  show ?thesis
  proof (cases "inserted calls = []")
    case True
    with c' show ?thesis by simp
  next
    case False
    then obtain items k x where items: "inserted calls = items @ [(k, x)]"
      by (cases "inserted calls" rule: rev_cases) auto
    let ?e1 = "foldl (Set_step ?tbs) e items"
    have inv: "weights_nonneg ?e1" using assms(2) by (rule foldl_Set_step_inv)
    have e': "?e' = lru_Set k (wrap ?tbs x) ?e1" by (simp add: items)
    from lru_Set_capacity_step [OF inv, of "wrap ?tbs x" k]
    show ?thesis using c' False
      by (auto simp: items Let_def split: if_splits)
  qed
qed

theorem Set_capacity_invariant_witness:
  "(\<exists>e'. LRUCache (opt (fst (Set_calls sizeBackend scenarioB))) = Some e' \<and>
          total_weight (entries e') \<le> 10) \<and>
   (\<exists>e'. LRUCache (opt (fst (Set_calls sizeBackend oversized))) = Some e' \<and>
          total_weight (entries e') = 12 \<and> length (entries e') = 1)"
proof -
  have e: "LRUCache (opt sizeBackend) = Some (lru_New 10)"
    by (simp add: sizeBackend_def NewLRU_def)
  have tbs: "TrackBySize (opt sizeBackend)"
    by (simp add: sizeBackend_def NewLRU_def)
  have b: "Set_calls sizeBackend scenarioB = (fst (Set_calls sizeBackend scenarioB), Inr None)"
    by code_simp
  have o: "Set_calls sizeBackend oversized = (fst (Set_calls sizeBackend oversized), Inr None)"
    by code_simp
  have ib: "inserted scenarioB = [(''x'', Some [1, 2, 3, 4, 5, 6]), (''y'', Some [6, 5, 4, 3, 2, 1])]"
    by (simp add: inserted_def scenarioB_def)
  have io: "inserted oversized =
      [(''x'', Some [1, 2, 3, 4, 5, 6]), (''big'', Some [1, 2, 3, 4, 5, 6, 7, 8, 9, 10, 11, 12])]"
    by (simp add: inserted_def oversized_def)
  have cap: "capacity (lru_New 10) = 10"
    by (simp add: lru_New_def)
  from Set_capacity_invariant [OF e weights_nonneg_New b]
  have 1: "\<exists>e'. LRUCache (opt (fst (Set_calls sizeBackend scenarioB))) = Some e' \<and>
          total_weight (entries e') \<le> 10"
    by (auto simp: ib tbs wrap_def len_bytes_def cap)
  from Set_capacity_invariant [OF e weights_nonneg_New o]
  have 2: "\<exists>e'. LRUCache (opt (fst (Set_calls sizeBackend oversized))) = Some e' \<and>
          total_weight (entries e') = 12 \<and> length (entries e') = 1"
    by (auto simp: io tbs wrap_def len_bytes_def cap)
  from 1 2 show ?thesis by (rule conjI)
qed

text \<open>
  C2. A \<^verbatim>\<open>Set\<close> keeps a prefix of the recency order and evicts the rest, so whatever is
  evicted was used less recently than whatever stays; it evicts no more than needed,
  since every longer prefix weighs more than Capacity, and it stops at the item just set.
  A \<^verbatim>\<open>Get\<close> that hits moves the entry to the front of the recency order. In scenario C
  (count mode, Capacity 2: Set a, Set b, Get a, Set c) b is evicted while a and c are
  answered; without the Get (scenario A) it is a that is evicted.
\<close>

theorem eviction_in_LRU_order:
  "(\<exists>n. 1 \<le> n \<and> entries (lru_Set k v e) = take n (recency k v e) \<and>
         (total_weight (entries (lru_Set k v e)) \<le> capacity e \<or> n = 1) \<and>
         (\<forall>m. n < m \<and> m \<le> length (recency k v e) \<longrightarrow>
               capacity e < total_weight (take m (recency k v e))))
   \<and> (cached k e = Some en \<longrightarrow>
        lru_Get k e =
          (e\<lparr>entries := en # filter (\<lambda>x. entry_key x \<noteq> k) (entries e)\<rparr>, Some (entry_value en)))
   \<and> snd (Get scenarioC [''a'', ''b'', ''c'']) = Inr ([Some [88], None, Some [90]], None)
   \<and> snd (Get scenarioA [''a'', ''b'', ''c'']) = Inr ([None, Some [89], Some [90]], None)"
proof -
  from evict_prefix [of "capacity e" "recency k v e"] obtain n where
    n: "evict (capacity e) (recency k v e) = take n (recency k v e)"
       "1 \<le> n"
       "total_weight (take n (recency k v e)) \<le> capacity e \<or> n \<le> 1"
       "\<forall>m. n < m \<and> m \<le> length (recency k v e) \<longrightarrow>
            capacity e < total_weight (take m (recency k v e))"
    by (auto simp: recency_def)
  have s: "entries (lru_Set k v e) = evict (capacity e) (recency k v e)"
    by (simp add: lru_Set_def recency_def)
  have 1: "\<exists>n. 1 \<le> n \<and> entries (lru_Set k v e) = take n (recency k v e) \<and>
         (total_weight (entries (lru_Set k v e)) \<le> capacity e \<or> n = 1) \<and>
         (\<forall>m. n < m \<and> m \<le> length (recency k v e) \<longrightarrow>
               capacity e < total_weight (take m (recency k v e)))"
    using n s by (intro exI [of _ n]) auto
  have 2: "cached k e = Some en \<longrightarrow>
        lru_Get k e =
          (e\<lparr>entries := en # filter (\<lambda>x. entry_key x \<noteq> k) (entries e)\<rparr>, Some (entry_value en))"
    by (simp add: lru_Get_hit)
  have 3: "snd (Get scenarioC [''a'', ''b'', ''c'']) = Inr ([Some [88], None, Some [90]], None)"
    by code_simp
  have 4: "snd (Get scenarioA [''a'', ''b'', ''c'']) = Inr ([None, Some [89], Some [90]], None)"
    by code_simp
  show ?thesis
    by (intro conjI) (rule 1, rule 2, rule 3, rule 4)
qed

theorem eviction_in_LRU_order_witness:
  "lru_Get ''a'' twoEntries =
     (twoEntries\<lparr>entries :=
        [\<lparr>entry_key = ''a'', entry_value = itemByCount (Some [88]), entry_weight = 1\<rparr>,
         \<lparr>entry_key = ''b'', entry_value = itemByCount (Some [89]), entry_weight = 1\<rparr>]\<rparr>,
      Some (itemByCount (Some [88])))"
  using eviction_in_LRU_order [of "''a''" "itemByCount (Some [88])" twoEntries
      "\<lparr>entry_key = ''a'', entry_value = itemByCount (Some [88]), entry_weight = 1\<rparr>"]
  by (simp add: cached_def twoEntries_def)

text \<open>
  C3. With both flags set the round trip fails: \<^verbatim>\<open>Set\<close> of one key followed at once by
  \<^verbatim>\<open>Get\<close> of that key panics in the type assertion instead of returning the value.
\<close>

theorem roundtrip_panics_when_both_flags:
  "snd (Get (fst (Set bothBackend [''k''] [Some [118]] [0])) [''k'']) = Inl TypeAssertion"
  by code_simp

text \<open>
  C4. \<^verbatim>\<open>Size\<close> is 1 for an \<^verbatim>\<open>itemByCount\<close> and the byte length for an \<^verbatim>\<open>itemBySize\<close>.
  After a \<^verbatim>\<open>Set\<close> that returns, every entry of the engine under one of the keys set is
  wrapped as \<^verbatim>\<open>TrackBySize\<close> says and weighs the byte length of its value when
  \<^verbatim>\<open>TrackBySize\<close> is set and 1 otherwise; and a \<^verbatim>\<open>Set\<close> of one key leaves that key's entry
  first, with the value given and that weight.
\<close>

theorem Set_weight_by_mode:
  "Size (itemByCount b) = 1 \<and> Size (itemBySize b) = int (len_bytes b)
   \<and> (LRUCache (opt c) = Some e \<and> Set c keys vals exps = (c', Inr err) \<longrightarrow>
        (\<exists>e'. LRUCache (opt c') = Some e' \<and>
           (\<forall>en\<in>set (entries e'). entry_key en \<in> set keys \<longrightarrow>
              wrap (TrackBySize (opt c)) (payload (entry_value en)) = entry_value en \<and>
              entry_weight en =
                (if TrackBySize (opt c) then int (len_bytes (payload (entry_value en))) else 1))))
   \<and> (LRUCache (opt c) = Some e \<longrightarrow>
        (\<exists>e' rest. Set c [k] [x] exps = (with_engine c (Some e'), Inr None) \<and>
           entries e' =
             \<lparr>entry_key = k, entry_value = wrap (TrackBySize (opt c)) x,
               entry_weight = (if TrackBySize (opt c) then int (len_bytes x) else 1)\<rparr> # rest))"
proof (intro conjI impI)
  show "Size (itemByCount b) = 1" by simp
  show "Size (itemBySize b) = int (len_bytes b)" by simp
next
  assume "LRUCache (opt c) = Some e \<and> Set c keys vals exps = (c', Inr err)"
  then have "LRUCache (opt c) = Some e" and "Set c keys vals exps = (c', Inr err)" by blast+
  then show "\<exists>e'. LRUCache (opt c') = Some e' \<and>
           (\<forall>en\<in>set (entries e'). entry_key en \<in> set keys \<longrightarrow>
              wrap (TrackBySize (opt c)) (payload (entry_value en)) = entry_value en \<and>
              entry_weight en =
                (if TrackBySize (opt c) then int (len_bytes (payload (entry_value en))) else 1))"
    by (rule Set_entries_wrapped)
next
  assume "LRUCache (opt c) = Some e"
  then show "\<exists>e' rest. Set c [k] [x] exps = (with_engine c (Some e'), Inr None) \<and>
           entries e' =
             \<lparr>entry_key = k, entry_value = wrap (TrackBySize (opt c)) x,
               entry_weight = (if TrackBySize (opt c) then int (len_bytes x) else 1)\<rparr> # rest"
    by (rule Set_single)
qed

theorem Set_weight_by_mode_witness:
  "(\<exists>e' rest. Set sizeBackend [''x''] [Some [1, 2, 3]] [0]
        = (with_engine sizeBackend (Some e'), Inr None) \<and>
      entries e' =
        \<lparr>entry_key = ''x'', entry_value = itemBySize (Some [1, 2, 3]), entry_weight = 3\<rparr> # rest)
   \<and> (\<exists>e'. LRUCache (opt (fst (Set sizeBackend [''x''] [Some [1, 2, 3]] [0]))) = Some e' \<and>
         (\<forall>en\<in>set (entries e'). entry_key en = ''x'' \<longrightarrow>
            itemBySize (payload (entry_value en)) = entry_value en \<and>
            entry_weight en = int (len_bytes (payload (entry_value en)))))"
proof -
  have h: "Set sizeBackend [''x''] [Some [1, 2, 3]] [0]
             = (fst (Set sizeBackend [''x''] [Some [1, 2, 3]] [0]), Inr None)"
    by code_simp
  note t = Set_weight_by_mode [where c = sizeBackend and e = "lru_New 10" and k = "''x''"
      and x = "Some [1, 2, 3]" and exps = "[0]" and keys = "[''x'']" and vals = "[Some [1, 2, 3]]"
      and c' = "fst (Set sizeBackend [''x''] [Some [1, 2, 3]] [0])" and err = None]
  from t sizeBackend_engine sizeBackend_flags
  have 1: "\<exists>e' rest. Set sizeBackend [''x''] [Some [1, 2, 3]] [0]
        = (with_engine sizeBackend (Some e'), Inr None) \<and>
      entries e' =
        \<lparr>entry_key = ''x'', entry_value = itemBySize (Some [1, 2, 3]), entry_weight = 3\<rparr> # rest"
    by (simp add: wrap_def len_bytes_def)
  from t sizeBackend_engine sizeBackend_flags h
  have 2: "\<exists>e'. LRUCache (opt (fst (Set sizeBackend [''x''] [Some [1, 2, 3]] [0]))) = Some e' \<and>
         (\<forall>en\<in>set (entries e'). entry_key en = ''x'' \<longrightarrow>
            itemBySize (payload (entry_value en)) = entry_value en \<and>
            entry_weight en = int (len_bytes (payload (entry_value en))))"
    by (simp add: wrap_def)
  from 1 2 show ?thesis by (rule conjI)
qed

text \<open>
  C5. \<^verbatim>\<open>NewLRU\<close> resolves the defaults in the order of its switch: \<^verbatim>\<open>TrackBySize\<close> with a
  zero Capacity gives 67108864 (whatever \<^verbatim>\<open>TrackByObjectCount\<close> is); otherwise
  \<^verbatim>\<open>TrackByObjectCount\<close> with a zero Capacity gives 5000; either flag with a non-zero
  Capacity keeps the Capacity given; with neither flag \<^verbatim>\<open>TrackByObjectCount\<close> becomes true
  and Capacity becomes 5000, whatever Capacity was given; a nil argument is resolved like
  the zero options.
\<close>

theorem NewLRU_defaults:
  "(TrackBySize opts \<and> Capacity opts = 0 \<longrightarrow>
      Capacity (opt (fst (NewLRU (Some opts) ()))) = 67108864)
   \<and> (\<not> TrackBySize opts \<and> TrackByObjectCount opts \<and> Capacity opts = 0 \<longrightarrow>
      Capacity (opt (fst (NewLRU (Some opts) ()))) = 5000)
   \<and> ((TrackBySize opts \<or> TrackByObjectCount opts) \<and> Capacity opts \<noteq> 0 \<longrightarrow>
      Capacity (opt (fst (NewLRU (Some opts) ()))) = Capacity opts)
   \<and> (\<not> TrackBySize opts \<and> \<not> TrackByObjectCount opts \<longrightarrow>
      TrackByObjectCount (opt (fst (NewLRU (Some opts) ()))) \<and>
      Capacity (opt (fst (NewLRU (Some opts) ()))) = 5000)
   \<and> TrackByObjectCount (opt (fst (NewLRU None ())))
   \<and> Capacity (opt (fst (NewLRU None ()))) = 5000"
  by (simp add: NewLRU_def Let_def)

theorem NewLRU_defaults_witness:
  "Capacity (opt (fst (NewLRU (Some \<lparr>Capacity = 0, TrackBySize = True,
      TrackByObjectCount = False, LRUCache = None\<rparr>) ()))) = 67108864
   \<and> Capacity (opt (fst (NewLRU (Some \<lparr>Capacity = 0, TrackBySize = False,
      TrackByObjectCount = True, LRUCache = None\<rparr>) ()))) = 5000
   \<and> Capacity (opt (fst (NewLRU (Some \<lparr>Capacity = 7, TrackBySize = True,
      TrackByObjectCount = False, LRUCache = None\<rparr>) ()))) = 7
   \<and> Capacity (opt (fst (NewLRU (Some \<lparr>Capacity = 7, TrackBySize = False,
      TrackByObjectCount = False, LRUCache = None\<rparr>) ()))) = 5000"
  using
    NewLRU_defaults [of "\<lparr>Capacity = 0, TrackBySize = True, TrackByObjectCount = False,
      LRUCache = None\<rparr>"]
    NewLRU_defaults [of "\<lparr>Capacity = 0, TrackBySize = False, TrackByObjectCount = True,
      LRUCache = None\<rparr>"]
    NewLRU_defaults [of "\<lparr>Capacity = 7, TrackBySize = True, TrackByObjectCount = False,
      LRUCache = None\<rparr>"]
    NewLRU_defaults [of "\<lparr>Capacity = 7, TrackBySize = False, TrackByObjectCount = False,
      LRUCache = None\<rparr>"]
  by simp

text \<open>
  C6. With both flags set \<^verbatim>\<open>Get\<close> does not answer a key sequence that holds a hit: for
  the keys x (a miss) and k (a hit) it panics in the type assertion instead of returning
  nil and the value of k.
\<close>

theorem Get_hit_panics_when_both_flags:
  "snd (Get (fst (Set bothBackend [''k''] [Some [118]] [0])) [''x'', ''k'']) = Inl TypeAssertion"
  by code_simp

text \<open>
  C7. On a backend made by \<^verbatim>\<open>NewLRU\<close> from options with both flags set and a non-zero
  Capacity, after a \<^verbatim>\<open>Set\<close> that returns, every \<^verbatim>\<open>Get\<close> that asks for a key of that \<^verbatim>\<open>Set\<close>
  still held by the engine panics in the type assertion: \<^verbatim>\<open>Set\<close> stored an \<^verbatim>\<open>itemBySize\<close>
  and \<^verbatim>\<open>Get\<close> asserts an \<^verbatim>\<open>itemByCount\<close>.
\<close>

theorem Get_panics_when_both_flags:
  assumes "TrackBySize opts" and "TrackByObjectCount opts" and "Capacity opts \<noteq> 0"
      and "Set (fst (NewLRU (Some opts) ())) keys vals exps = (c', Inr err)"
      and "k \<in> set keys"
      and "LRUCache (opt c') = Some e'" and "cached k e' \<noteq> None"
      and "k \<in> set ks"
  shows "snd (Get c' ks) = Inl TypeAssertion"
proof -
  let ?c = "fst (NewLRU (Some opts) ())"
  from NewLRU_engine [of "Some opts"] obtain e where e: "LRUCache (opt ?c) = Some e" by blast
  have tbs: "TrackBySize (opt ?c)" and tboc: "TrackByObjectCount (opt ?c)"
    using assms(1,2) by (simp_all add: NewLRU_flags)
  have len: "length keys \<le> length vals"
    using e assms(4) by (rule Set_returns_length)
  from Set_complete [OF e len, of exps] assms(4)
  have tboc': "TrackByObjectCount (opt c')" using tboc by auto
  from assms(7) obtain en where en: "cached k e' = Some en" by auto
  then have mem: "en \<in> set (entries e')" and key: "entry_key en = k"
    by (auto dest: cached_in_set)
  from Set_entries_wrapped [OF e assms(4)] assms(6) mem key assms(5) tbs
  have "wrap True (payload (entry_value en)) = entry_value en" by auto
  then have "\<not> asserted True (entry_value en)"
    by (cases "entry_value en") (auto simp: wrap_def asserted_def)
  with tboc' have "\<not> asserted (TrackByObjectCount (opt c')) (entry_value en)" by simp
  from Get_TypeAssertion [OF assms(6) en this assms(8)] show ?thesis .
qed

theorem Get_panics_when_both_flags_witness:
  "snd (Get (fst (Set (fst (NewLRU (Some bothOpts) ())) [''a'', ''b''] [Some [1], Some [2]] [0, 0]))
        [''x'', ''b'']) = Inl TypeAssertion"
proof -
  let ?c' = "fst (Set (fst (NewLRU (Some bothOpts) ())) [''a'', ''b''] [Some [1], Some [2]] [0, 0])"
  let ?e' = "\<lparr>entries =
        [\<lparr>entry_key = ''b'', entry_value = itemBySize (Some [2]), entry_weight = 1\<rparr>,
         \<lparr>entry_key = ''a'', entry_value = itemBySize (Some [1]), entry_weight = 1\<rparr>],
      capacity = 10\<rparr>"
  have 1: "TrackBySize bothOpts" and 2: "TrackByObjectCount bothOpts" and 3: "Capacity bothOpts \<noteq> 0"
    by (simp_all add: bothOpts_def)
  have 4: "Set (fst (NewLRU (Some bothOpts) ())) [''a'', ''b''] [Some [1], Some [2]] [0, 0]
             = (?c', Inr None)"
    by code_simp
  have 5: "''b'' \<in> set [''a'', ''b'']" by simp
  have 6: "LRUCache (opt ?c') = Some ?e'" by code_simp
  have 7: "cached ''b'' ?e' \<noteq> None" by (simp add: cached_def)
  have 8: "''b'' \<in> set [''x'', ''b'']" by simp
  from Get_panics_when_both_flags [OF 1 2 3 4 5 6 7 8] show ?thesis .
qed

text \<open>
  C8, as stated, fails: \<^verbatim>\<open>Set\<close> with one key and no value does not return a nil error, it
  panics on \<^verbatim>\<open>values[0]\<close>.
\<close>

theorem Set_short_values_counterexample:
  "snd (Set countBackend [''k''] [] []) = Inl IndexOutOfRange
   \<and> snd (Set countBackend [''k''] [] []) \<noteq> Inr None"
  by code_simp

text \<open>
  C8, amended. The factory of \<^verbatim>\<open>NewLRU\<close> returns a backend with an engine and a nil
  error. On a backend with an engine, \<^verbatim>\<open>Delete\<close>, \<^verbatim>\<open>Truncate\<close> and \<^verbatim>\<open>Close\<close> return a nil
  error on every call; \<^verbatim>\<open>Set\<close> returns a nil error on every call with at least as many
  values as keys and panics with an index out of range on every other call; \<^verbatim>\<open>Get\<close>
  returns a nil error on every call made while each cached value has the dynamic type
  its type assertion names.
\<close>

theorem operations_return_nil_error:
  "snd (NewLRU p ()) = None \<and> (\<exists>e0. LRUCache (opt (fst (NewLRU p ()))) = Some e0)
   \<and> (LRUCache (opt c) = Some e \<longrightarrow>
        snd (Delete c keys) = Inr None \<and> snd (Truncate c) = Inr None \<and> snd (Close c) = Inr None
        \<and> (length keys \<le> length vals \<longrightarrow> snd (Set c keys vals exps) = Inr None)
        \<and> (length vals < length keys \<longrightarrow> snd (Set c keys vals exps) = Inl IndexOutOfRange)
        \<and> (stored_as (TrackByObjectCount (opt c)) e \<longrightarrow>
             (\<exists>vs. snd (Get c keys) = Inr (vs, None))))"
proof (intro conjI impI)
  show "snd (NewLRU p ()) = None" by (rule NewLRU_error)
  show "\<exists>e0. LRUCache (opt (fst (NewLRU p ()))) = Some e0" by (rule NewLRU_engine)
next
  assume e: "LRUCache (opt c) = Some e"
  from Delete_returns [OF e, of keys] show "snd (Delete c keys) = Inr None" by auto
  from e show "snd (Truncate c) = Inr None" by (simp add: Truncate_def)
  from e show "snd (Close c) = Inr None" by (simp add: Close_def)
  {
    assume "length keys \<le> length vals"
    from Set_complete [OF e this, of exps] show "snd (Set c keys vals exps) = Inr None" by simp
  }
  {
    assume "length vals < length keys"
    from Set_panics [OF e this, of exps] show "snd (Set c keys vals exps) = Inl IndexOutOfRange" .
  }
  {
    assume "stored_as (TrackByObjectCount (opt c)) e"
    from Get_returns [OF e this, of keys] show "\<exists>vs. snd (Get c keys) = Inr (vs, None)" by auto
  }
qed

theorem operations_return_nil_error_witness:
  "snd (Delete countBackend [''k'']) = Inr None \<and> snd (Truncate countBackend) = Inr None
   \<and> snd (Close countBackend) = Inr None
   \<and> snd (Set countBackend [''k''] [Some [1]] [0]) = Inr None
   \<and> snd (Set countBackend [''k'', ''l''] [Some [1]] [0]) = Inl IndexOutOfRange
   \<and> (\<exists>vs. snd (Get countBackend [''k'']) = Inr (vs, None))"
  using
    operations_return_nil_error [where c = countBackend and e = "lru_New 2" and keys = "[''k'']"
      and vals = "[Some [1]]" and exps = "[0]"]
    operations_return_nil_error [where c = countBackend and e = "lru_New 2"
      and keys = "[''k'', ''l'']" and vals = "[Some [1]]" and exps = "[0]"]
    countBackend_engine countBackend_flags
  by simp

text \<open>
  C9. \<^verbatim>\<open>Truncate\<close> returns a nil error and leaves the engine empty, so that a \<^verbatim>\<open>Get\<close> of
  any keys afterwards answers nil for each of them and changes nothing; \<^verbatim>\<open>Close\<close> does
  what \<^verbatim>\<open>Truncate\<close> does, and a second \<^verbatim>\<open>Close\<close> returns a nil error and changes nothing.
\<close>

theorem Truncate_and_Close_clear:
  assumes "LRUCache (opt c) = Some e"
  shows "Truncate c = (with_engine c (Some (e\<lparr>entries := []\<rparr>)), Inr None)
         \<and> Get (fst (Truncate c)) keys
             = (fst (Truncate c), Inr (replicate (length keys) None, None))
         \<and> Close c = Truncate c
         \<and> Close (fst (Close c)) = (fst (Close c), Inr None)"
proof -
  let ?c' = "with_engine c (Some (e\<lparr>entries := []\<rparr>))"
  have t: "Truncate c = (?c', Inr None)"
    using assms by (simp add: Truncate_def lru_Clear_def)
  have c: "Close c = (?c', Inr None)"
    using assms by (simp add: Close_def lru_Clear_def)
  have g: "Get ?c' keys = (?c', Inr (replicate (length keys) None, None))"
    using Get_loop_empty [of "e\<lparr>entries := []\<rparr>" _ keys "[]"]
    by (simp add: Get_def)
  have cc: "Close ?c' = (?c', Inr None)"
    by (simp add: Close_def lru_Clear_def)
  from t c g cc show ?thesis by simp
qed

theorem Truncate_and_Close_clear_witness:
  "Get (fst (Truncate afterB)) [''x'', ''y''] = (fst (Truncate afterB), Inr ([None, None], None))
   \<and> Close afterB = Truncate afterB"
proof -
  have e: "LRUCache (opt afterB) =
      Some \<lparr>entries =
               [\<lparr>entry_key = ''y'', entry_value = itemBySize (Some [6, 5, 4, 3, 2, 1]),
                  entry_weight = 6\<rparr>],
             capacity = 10\<rparr>"
    by code_simp
  have r: "replicate (length [''x'', ''y'']) (None::bytes) = [None, None]"
    by simp
  from Truncate_and_Close_clear [OF e, of "[''x'', ''y'']", unfolded r] show ?thesis
    by blast
qed

text \<open>
  C10. The expirations handed to \<^verbatim>\<open>Set\<close> have no effect: with the same keys and values,
  any two expiration sequences give the same backend state and the same result. No entry
  leaves the cache for the time that has passed: no operation takes a time, and an entry
  leaves only under capacity pressure, by a \<^verbatim>\<open>Delete\<close> of its key, or by \<^verbatim>\<open>Truncate\<close> and
  \<^verbatim>\<open>Close\<close>. A \<^verbatim>\<open>Set\<close> whose insertion leaves the total weight within Capacity evicts
  nothing, in the engine and through the backend whatever the expirations; a \<^verbatim>\<open>Get\<close>
  keeps the entry of every key; a \<^verbatim>\<open>Delete\<close> keeps the entry of every key it was not
  given.
\<close>

theorem Set_ignores_expirations:
  "Set c keys vals exps = Set c keys vals exps'
   \<and> (total_weight (recency k v e) \<le> capacity e \<longrightarrow> entries (lru_Set k v e) = recency k v e)
   \<and> (LRUCache (opt c) = Some e
        \<and> total_weight (recency k (wrap (TrackBySize (opt c)) x) e) \<le> capacity e \<longrightarrow>
        Set c [k] [x] exps =
          (with_engine c (Some (e\<lparr>entries := recency k (wrap (TrackBySize (opt c)) x) e\<rparr>)),
           Inr None))
   \<and> (LRUCache (opt c) = Some e \<longrightarrow>
        (\<exists>e'. LRUCache (opt (fst (Get c keys))) = Some e' \<and> (\<forall>k'. cached k' e' = cached k' e)))
   \<and> (LRUCache (opt c) = Some e \<and> k \<notin> set keys \<longrightarrow>
        (\<exists>e'. LRUCache (opt (fst (Delete c keys))) = Some e' \<and> cached k e' = cached k e))"
proof (intro conjI impI)
  show "Set c keys vals exps = Set c keys vals exps'"
    by (simp add: Set_def)
next
  assume "total_weight (recency k v e) \<le> capacity e"
  then show "entries (lru_Set k v e) = recency k v e" by (rule lru_Set_fits)
next
  assume "LRUCache (opt c) = Some e
        \<and> total_weight (recency k (wrap (TrackBySize (opt c)) x) e) \<le> capacity e"
  then show "Set c [k] [x] exps =
          (with_engine c (Some (e\<lparr>entries := recency k (wrap (TrackBySize (opt c)) x) e\<rparr>)),
           Inr None)"
    using Set_single_fits by blast
next
  assume "LRUCache (opt c) = Some e"
  then show "\<exists>e'. LRUCache (opt (fst (Get c keys))) = Some e' \<and> (\<forall>k'. cached k' e' = cached k' e)"
    by (rule Get_keeps_cached)
next
  assume "LRUCache (opt c) = Some e \<and> k \<notin> set keys"
  then show "\<exists>e'. LRUCache (opt (fst (Delete c keys))) = Some e' \<and> cached k e' = cached k e"
    using Delete_keeps_others by blast
qed

theorem Set_ignores_expirations_witness:
  "Set sizeBackend [''x''] [Some [1, 2, 3, 4, 5, 6]] [0]
     = Set sizeBackend [''x''] [Some [1, 2, 3, 4, 5, 6]] [3600]
   \<and> Set sizeBackend [''x''] [Some [1, 2, 3, 4, 5, 6]] [0] =
       (with_engine sizeBackend
          (Some \<lparr>entries =
                   [\<lparr>entry_key = ''x'', entry_value = itemBySize (Some [1, 2, 3, 4, 5, 6]),
                      entry_weight = 6\<rparr>],
                 capacity = 10\<rparr>),
        Inr None)
   \<and> (\<exists>e'. LRUCache (opt (fst (Get afterB [''y'', ''x'']))) = Some e' \<and>
          cached ''y'' e' =
            Some \<lparr>entry_key = ''y'', entry_value = itemBySize (Some [6, 5, 4, 3, 2, 1]),
                   entry_weight = 6\<rparr>)
   \<and> (\<exists>e'. LRUCache (opt (fst (Delete afterB [''x'']))) = Some e' \<and>
          cached ''y'' e' =
            Some \<lparr>entry_key = ''y'', entry_value = itemBySize (Some [6, 5, 4, 3, 2, 1]),
                   entry_weight = 6\<rparr>)"
proof -
  let ?x = "Some [1, 2, 3, 4, 5, 6] :: bytes"
  let ?eB = "\<lparr>entries =
               [\<lparr>entry_key = ''y'', entry_value = itemBySize (Some [6, 5, 4, 3, 2, 1]),
                  entry_weight = 6\<rparr>],
             capacity = 10\<rparr>"
  have eB: "LRUCache (opt afterB) = Some ?eB"
    by code_simp
  have cy: "cached ''y'' ?eB =
      Some \<lparr>entry_key = ''y'', entry_value = itemBySize (Some [6, 5, 4, 3, 2, 1]),
             entry_weight = 6\<rparr>"
    by (simp add: cached_def)
  have fits: "total_weight (recency ''x'' (wrap (TrackBySize (opt sizeBackend)) ?x) (lru_New 10))
                \<le> capacity (lru_New 10)"
    by (simp add: sizeBackend_flags wrap_def recency_def lru_New_def len_bytes_def)
  note a = Set_ignores_expirations [where c = sizeBackend and e = "lru_New 10" and k = "''x''"
      and x = ?x and keys = "[''x'']" and vals = "[?x]" and exps = "[0]" and exps' = "[3600]"]
  note b = Set_ignores_expirations [where c = afterB and e = ?eB and k = "''y''"
      and keys = "[''y'', ''x'']"]
  note d = Set_ignores_expirations [where c = afterB and e = ?eB and k = "''y''"
      and keys = "[''x'']"]
  from a have 1: "Set sizeBackend [''x''] [?x] [0] = Set sizeBackend [''x''] [?x] [3600]"
    by blast
  from a sizeBackend_engine fits
  have "Set sizeBackend [''x''] [?x] [0] =
          (with_engine sizeBackend
             (Some ((lru_New 10)\<lparr>entries :=
                recency ''x'' (wrap (TrackBySize (opt sizeBackend)) ?x) (lru_New 10)\<rparr>)),
           Inr None)"
    by blast
  then have 2: "Set sizeBackend [''x''] [?x] [0] =
       (with_engine sizeBackend
          (Some \<lparr>entries =
                   [\<lparr>entry_key = ''x'', entry_value = itemBySize ?x, entry_weight = 6\<rparr>],
                 capacity = 10\<rparr>),
        Inr None)"
    by (simp add: sizeBackend_flags wrap_def recency_def lru_New_def len_bytes_def)
  from b eB have "\<exists>e'. LRUCache (opt (fst (Get afterB [''y'', ''x'']))) = Some e' \<and>
          (\<forall>k'. cached k' e' = cached k' ?eB)"
    by blast
  then have 3: "\<exists>e'. LRUCache (opt (fst (Get afterB [''y'', ''x'']))) = Some e' \<and>
          cached ''y'' e' =
            Some \<lparr>entry_key = ''y'', entry_value = itemBySize (Some [6, 5, 4, 3, 2, 1]),
                   entry_weight = 6\<rparr>"
    using cy by metis
  have "''y'' \<notin> set [''x'']" by simp
  with d eB have "\<exists>e'. LRUCache (opt (fst (Delete afterB [''x'']))) = Some e' \<and>
          cached ''y'' e' = cached ''y'' ?eB"
    by blast
  then have 4: "\<exists>e'. LRUCache (opt (fst (Delete afterB [''x'']))) = Some e' \<and>
          cached ''y'' e' =
            Some \<lparr>entry_key = ''y'', entry_value = itemBySize (Some [6, 5, 4, 3, 2, 1]),
                   entry_weight = 6\<rparr>"
    using cy by metis
  show ?thesis
    by (intro conjI) (rule 1, rule 2, rule 3, rule 4)
qed

section \<open>Further properties of the backend\<close>

text \<open>
  X1. The round trip on a backend with exactly one flag set: \<^verbatim>\<open>Set\<close> of one key followed at
  once by \<^verbatim>\<open>Get\<close> of that key returns the value set, with a nil error.
\<close>

theorem Set_Get_roundtrip:
  assumes "LRUCache (opt c) = Some e"
      and "TrackBySize (opt c) \<noteq> TrackByObjectCount (opt c)"
  shows "snd (Get (fst (Set c [k] [x] exps)) [k]) = Inr ([x], None)"
proof -
  let ?v = "wrap (TrackBySize (opt c)) x"
  let ?e1 = "lru_Set k ?v e"
  have s: "fst (Set c [k] [x] exps) = with_engine c (Some ?e1)"
    using Set_complete [OF assms(1), of "[k]" "[x]" exps] by simp
  have h: "cached k ?e1 = Some \<lparr>entry_key = k, entry_value = ?v, entry_weight = Size ?v\<rparr>"
    by (rule cached_lru_Set_same)
  note g = lru_Get_hit [OF h]
  have "snd (Get_loop (TrackByObjectCount (opt c)) (Some ?e1) [k] []) = Inr [x]"
    using g assms(2) by (cases "TrackBySize (opt c)") (auto simp: wrap_def)
  then show ?thesis
    by (auto simp: s Get_def split: prod.splits sum.splits)
qed

theorem Set_Get_roundtrip_witness:
  "snd (Get (fst (Set countBackend [''k''] [Some [118]] [0])) [''k'']) = Inr ([Some [118]], None)"
  using Set_Get_roundtrip [OF countBackend_engine, of "''k''" "Some [118]" "[0]"] countBackend_flags
  by simp

text \<open>
  X2. While each cached value has the dynamic type the assertion of \<^verbatim>\<open>Get\<close> names, \<^verbatim>\<open>Get\<close>
  returns as many values as it was given keys, the i-th being the bytes cached for the
  i-th key and nil when there are none, with a nil error.
\<close>

theorem Get_aligned:
  assumes "LRUCache (opt c) = Some e" and "stored_as (TrackByObjectCount (opt c)) e"
  shows "\<exists>vs. snd (Get c keys) = Inr (vs, None) \<and> length vs = length keys \<and>
           (\<forall>i<length keys. vs ! i =
              (case cached (keys ! i) e of None \<Rightarrow> None
               | Some en \<Rightarrow> payload (entry_value en)))"
  using Get_returns [OF assms, of keys] by (auto simp: answer_def)

theorem Get_aligned_witness:
  "\<exists>vs. snd (Get afterB [''x'', ''y'']) = Inr (vs, None) \<and> length vs = 2
        \<and> vs ! 0 = None \<and> vs ! 1 = Some [6, 5, 4, 3, 2, 1]"
proof -
  let ?e = "\<lparr>entries =
               [\<lparr>entry_key = ''y'', entry_value = itemBySize (Some [6, 5, 4, 3, 2, 1]),
                  entry_weight = 6\<rparr>],
             capacity = 10\<rparr>"
  have e: "LRUCache (opt afterB) = Some ?e"
    by code_simp
  have f: "TrackByObjectCount (opt afterB) = False"
    by code_simp
  have s: "stored_as (TrackByObjectCount (opt afterB)) ?e"
    by (simp add: f stored_as_def asserted_def)
  from Get_aligned [OF e s, of "[''x'', ''y'']"] obtain vs where
    vs: "snd (Get afterB [''x'', ''y'']) = Inr (vs, None)" "length vs = 2"
        "\<forall>i<2. vs ! i = (case cached ([''x'', ''y''] ! i) ?e of None \<Rightarrow> None
               | Some en \<Rightarrow> payload (entry_value en))"
    by auto
  from vs(3) have "vs ! 0 = None" "vs ! 1 = Some [6, 5, 4, 3, 2, 1]"
    by (simp_all add: cached_def)
  with vs(1,2) show ?thesis by blast
qed

text \<open>
  X3. On a backend made by \<^verbatim>\<open>NewLRU\<close> with a new engine and not both flags set, after every
  sequence of \<^verbatim>\<open>Set\<close> calls that complete, \<^verbatim>\<open>Get\<close> returns as many values as it was given
  keys, with a nil error.
\<close>

theorem Get_after_Sets_returns:
  assumes "\<not> (TrackBySize opts \<and> TrackByObjectCount opts)"
      and "LRUCache opts = None"
      and "Set_calls (fst (NewLRU (Some opts) ())) calls = (c', Inr err)"
  shows "\<exists>vs. snd (Get c' keys) = Inr (vs, None) \<and> length vs = length keys"
proof -
  let ?c = "fst (NewLRU (Some opts) ())"
  have flags: "TrackBySize (opt ?c) \<noteq> TrackByObjectCount (opt ?c)"
    using assms(1) by (auto simp: NewLRU_def Let_def)
  obtain cap where e: "LRUCache (opt ?c) = Some (lru_New cap)"
    using NewLRU_fresh [OF assms(2)] by blast
  let ?e' = "foldl (Set_step (TrackBySize (opt ?c))) (lru_New cap) (inserted calls)"
  from Set_calls_engine [OF e assms(3)]
  have c': "LRUCache (opt c') = Some ?e'"
    and tboc: "TrackByObjectCount (opt c') = TrackByObjectCount (opt ?c)" by simp_all
  have "stored_as (TrackByObjectCount (opt ?c)) ?e'"
    using flags by (intro stored_as_foldl) simp_all
  then have "stored_as (TrackByObjectCount (opt c')) ?e'" by (simp add: tboc)
  from Get_returns [OF c' this, of keys] show ?thesis by auto
qed

theorem Get_after_Sets_returns_witness:
  "\<exists>vs. snd (Get afterB [''x'', ''y'']) = Inr (vs, None) \<and> length vs = 2"
proof -
  have 1: "\<not> (TrackBySize \<lparr>Capacity = 10, TrackBySize = True, TrackByObjectCount = False,
              LRUCache = None\<rparr> \<and>
            TrackByObjectCount \<lparr>Capacity = 10, TrackBySize = True, TrackByObjectCount = False,
              LRUCache = None\<rparr>)" by simp
  have 2: "LRUCache \<lparr>Capacity = 10, TrackBySize = True, TrackByObjectCount = False,
              LRUCache = None\<rparr> = None" by simp
  have 3: "Set_calls (fst (NewLRU (Some \<lparr>Capacity = 10, TrackBySize = True,
              TrackByObjectCount = False, LRUCache = None\<rparr>) ())) scenarioB = (afterB, Inr None)"
    by code_simp
  from Get_after_Sets_returns [OF 1 2 3, of "[''x'', ''y'']"] show ?thesis
    by (auto simp: numeral_2_eq_2)
qed

text \<open>
  X4. \<^verbatim>\<open>Delete\<close> of a key the engine does not hold returns a nil error and changes nothing.
\<close>

theorem Delete_absent_key:
  assumes "LRUCache (opt c) = Some e" and "cached k e = None"
  shows "Delete c [k] = (c, Inr None)"
proof -
  have "filter (\<lambda>en. entry_key en \<noteq> k) (entries e) = entries e"
    using cached_None [OF assms(2)] by (simp add: filter_id_conv)
  then have "lru_Delete k e = e" by (simp add: lru_Delete_def)
  with assms(1) show ?thesis
    by (simp add: Delete_def with_engine_same)
qed

theorem Delete_absent_key_witness:
  "Delete countBackend [''k''] = (countBackend, Inr None)"
  using Delete_absent_key [OF countBackend_engine, of "''k''"]
  by (simp add: cached_def lru_New_def)

end
